theory Spec2Isabelle
  imports Complex_Main
begin

section \<open>The JavaScript values the utilities of \<^verbatim>\<open>util.js\<close> work on\<close>

text \<open>
  The functions \<^verbatim>\<open>type\<close>, \<^verbatim>\<open>eq\<close>, \<^verbatim>\<open>arrayEq\<close>, \<^verbatim>\<open>objectEq\<close> and \<^verbatim>\<open>detectRecursion\<close>
  inspect arbitrary JavaScript values. A value is a primitive or a reference to an
  object in the heap; objects have identity, so reference graphs may be cyclic.

  A number is the not-a-number sentinel, an infinity or a finite value. The code only
  ever compares numbers with \<^verbatim>\<open>===\<close>, which identifies \<^verbatim>\<open>+0\<close> and \<^verbatim>\<open>-0\<close>, so both zeros are
  \<open>Finite 0\<close>.
\<close>

datatype number = NaN | NegInfinity | Finite rat | PosInfinity

datatype val =
    VNull
  | VUndefined
  | VBool bool
  | VNum number
  | VStr string
  | VSymbol nat
  | VRef nat

datatype error = TypeError | Thrown val

text \<open>
  What an object is to the runtime: its internal class (what
  \<^verbatim>\<open>Object.prototype.toString.call(o)\<close> reports, and what \<^verbatim>\<open>Array.isArray\<close> tests) together
  with the internal slots of that class. \<open>Array\<close> and \<open>Arguments\<close> carry their indexed
  elements (a hole reads as \<^verbatim>\<open>undefined\<close>, which is all \<^verbatim>\<open>eq\<close> and \<^verbatim>\<open>arrayEq\<close> see of it;
  sparse arrays are not told apart from dense ones), the wrapper objects their primitive value,
  \<open>Date\<close> its time value, \<open>RegExp\<close> its source text and its flags, \<open>Function\<close> what
  a call with a receiver and one argument does (returns a value or throws). \<open>Other\<close> is
  any class \<^verbatim>\<open>type\<close> has no case for (\<^verbatim>\<open>[object Error]\<close>, \<^verbatim>\<open>[object Math]\<close>, ...).
\<close>

record regexp =
  source :: string
  global :: bool
  multiline :: bool
  ignoreCase :: bool
  sticky :: bool
  unicode :: bool
  dotAll :: bool

datatype kind =
    Array "val list"
  | Arguments "val list"
  | Function "val \<Rightarrow> val \<Rightarrow> error + val"
  | StringObject string
  | NumberObject number
  | BooleanObject bool
  | Date number
  | RegExp regexp
  | Object
  | Other

text \<open>
  Besides its kind an object has named properties: \<open>props\<close> are its own enumerable
  properties in the order \<^verbatim>\<open>Object.keys\<close> lists them, \<open>hidden\<close> its own non-enumerable
  ones (\<^verbatim>\<open>Object.defineProperty(this, 'objectId', ...)\<close> makes one), \<open>inherited\<close> the
  properties its prototype chain adds (the \<^verbatim>\<open>eq\<close> method of a model object lives there).
  The index properties and the \<^verbatim>\<open>length\<close> of an array, an \<^verbatim>\<open>arguments\<close> object or a \<^verbatim>\<open>String\<close>
  wrapper are not listed: they are read off its kind (\<open>exotic\<close> below).
  \<open>objectProto\<close> says whether the chain ends in \<^verbatim>\<open>Object.prototype\<close>, which is where
  \<^verbatim>\<open>hasOwnProperty\<close> comes from unless a property of that name shadows it;
  \<^verbatim>\<open>Object.create(null)\<close> gives an object where it is \<open>False\<close>.
\<close>

record obj =
  kind :: kind
  props :: "(string \<times> val) list"
  hidden :: "(string \<times> val) list"
  inherited :: "(string \<times> val) list"
  objectProto :: bool

text \<open>
  The heap is the list of the objects there are; the address of an object is its
  position. A reference to an address outside the heap reads as an object of a class
  \<^verbatim>\<open>type\<close> does not know, without properties and without a prototype.
\<close>

type_synonym heap = "obj list"

definition lookup :: "heap \<Rightarrow> nat \<Rightarrow> obj option" where
  "lookup h a = (if a < length h then Some (h ! a) else None)"

text \<open>\<^verbatim>\<open>x === y\<close>: the sentinel is unequal to everything, itself included.\<close>

definition strict_eq :: "val \<Rightarrow> val \<Rightarrow> bool" where
  "strict_eq x y = (x = y \<and> x \<noteq> VNum NaN)"

text \<open>The truthiness test of \<^verbatim>\<open>&&\<close> and \<^verbatim>\<open>!\<close>.\<close>

fun truthy :: "val \<Rightarrow> bool" where
  "truthy VNull = False"
| "truthy VUndefined = False"
| "truthy (VBool b) = b"
| "truthy (VNum n) = (n \<noteq> NaN \<and> n \<noteq> Finite 0)"
| "truthy (VStr s) = (s \<noteq> [])"
| "truthy (VSymbol _) = True"
| "truthy (VRef _) = True"

text \<open>
  Property names are strings. The name of the index \<open>i\<close> is its decimal numeral
  (\<^verbatim>\<open>a[1]\<close> and \<^verbatim>\<open>a['1']\<close> are one property), which is how \<^verbatim>\<open>Object.keys\<close> lists the indices
  of an array.
\<close>

definition digit :: "nat \<Rightarrow> char" where
  "digit d = ''0123456789'' ! d"

fun index_key :: "nat \<Rightarrow> string" where
  "index_key n = (if n < 10 then [digit n] else index_key (n div 10) @ [digit (n mod 10)])"

definition index_keys :: "nat \<Rightarrow> string list" where
  "index_keys n = map index_key [0..<n]"

text \<open>
  The indexed items of a value, if it has any: the elements of an array or of an
  \<^verbatim>\<open>arguments\<close> object, the characters of a string or of a \<^verbatim>\<open>String\<close> wrapper. \<open>exotic\<close>
  gives the own properties that come with them: one per index (enumerable) and
  \<^verbatim>\<open>length\<close> (not enumerable).
\<close>

definition chars :: "string \<Rightarrow> val list" where
  "chars s = map (\<lambda>c. VStr [c]) s"

definition items :: "kind \<Rightarrow> val list option" where
  "items k =
     (case k of
        Array xs \<Rightarrow> Some xs
      | Arguments xs \<Rightarrow> Some xs
      | StringObject s \<Rightarrow> Some (chars s)
      | _ \<Rightarrow> None)"

fun exotic :: "val list option \<Rightarrow> (string \<times> val) list" where
  "exotic None = []"
| "exotic (Some xs) = zip (index_keys (length xs)) xs @ [(''length'', VNum (Finite (of_nat (length xs))))]"

fun exotic_keys :: "val list option \<Rightarrow> string list" where
  "exotic_keys None = []"
| "exotic_keys (Some xs) = index_keys (length xs)"

text \<open>
  \<^verbatim>\<open>o[key]\<close>: own properties first, then the prototype chain, \<^verbatim>\<open>undefined\<close> when nothing
  has it. A string has its characters and its \<^verbatim>\<open>length\<close>; the wrapper prototypes of the
  primitives define neither \<^verbatim>\<open>objectId\<close> nor \<^verbatim>\<open>eq\<close>, and the code reads no other inherited
  name from a primitive (\<^verbatim>\<open>objectEq\<close> reads \<^verbatim>\<open>a[key]\<close> and \<^verbatim>\<open>b[key]\<close> for own keys only).
\<close>

definition get_prop :: "heap \<Rightarrow> val \<Rightarrow> string \<Rightarrow> val" where
  "get_prop h v key =
     (case v of
        VRef a \<Rightarrow>
          (case lookup h a of
             None \<Rightarrow> VUndefined
           | Some ob \<Rightarrow>
               (case map_of (exotic (items (kind ob))) key of
                  Some x \<Rightarrow> x
                | None \<Rightarrow>
                    (case map_of (props ob @ hidden ob @ inherited ob) key of
                       None \<Rightarrow> VUndefined
                     | Some x \<Rightarrow> x)))
      | VStr s \<Rightarrow>
          (case map_of (exotic (Some (chars s))) key of
             Some x \<Rightarrow> x
           | None \<Rightarrow> VUndefined)
      | _ \<Rightarrow> VUndefined)"

text \<open>\<^verbatim>\<open>typeof f === 'function'\<close>, and the call \<^verbatim>\<open>f.call(this, arg)\<close>.\<close>

definition is_function :: "heap \<Rightarrow> val \<Rightarrow> bool" where
  "is_function h f =
     (case f of
        VRef a \<Rightarrow> (case lookup h a of Some ob \<Rightarrow> (case kind ob of Function _ \<Rightarrow> True | _ \<Rightarrow> False) | None \<Rightarrow> False)
      | _ \<Rightarrow> False)"

definition call :: "heap \<Rightarrow> val \<Rightarrow> val \<Rightarrow> val \<Rightarrow> error + val" where
  "call h f this arg =
     (case f of
        VRef a \<Rightarrow>
          (case lookup h a of
             Some ob \<Rightarrow> (case kind ob of Function body \<Rightarrow> body this arg | _ \<Rightarrow> Inl TypeError)
           | None \<Rightarrow> Inl TypeError)
      | _ \<Rightarrow> Inl TypeError)"

text \<open>
  The method call \<^verbatim>\<open>o.hasOwnProperty(key)\<close> on an object: the property is looked up like
  any other (no index and no \<^verbatim>\<open>length\<close> has that name); a value found under that name is
  called (a \<^verbatim>\<open>TypeError\<close> when it is not a function); otherwise the built-in of
  \<^verbatim>\<open>Object.prototype\<close> answers, when the object inherits from it, and the call of
  \<^verbatim>\<open>undefined\<close> is a \<^verbatim>\<open>TypeError\<close> when it does not. A primitive other than \<^verbatim>\<open>null\<close> and
  \<^verbatim>\<open>undefined\<close> finds the built-in through its wrapper prototype; only a string has own
  properties. (\<^verbatim>\<open>type\<close> makes this call after it has seen the class \<^verbatim>\<open>[object Object]\<close>,
  \<^verbatim>\<open>objectEq\<close> after \<^verbatim>\<open>Object.keys\<close> has accepted the value.)
\<close>

definition has_own :: "obj \<Rightarrow> string \<Rightarrow> bool" where
  "has_own ob key =
     (key \<in> set (map fst (exotic (items (kind ob)))) \<or> key \<in> set (map fst (props ob @ hidden ob)))"

definition hasOwnProperty :: "heap \<Rightarrow> val \<Rightarrow> string \<Rightarrow> error + val" where
  "hasOwnProperty h v key =
     (case v of
        VRef a \<Rightarrow>
          (case lookup h a of
             None \<Rightarrow> Inl TypeError
           | Some ob \<Rightarrow>
               (case map_of (props ob @ hidden ob @ inherited ob) ''hasOwnProperty'' of
                  Some f \<Rightarrow> call h f v (VStr key)
                | None \<Rightarrow> if objectProto ob then Inr (VBool (has_own ob key)) else Inl TypeError))
      | VStr s \<Rightarrow> Inr (VBool (key \<in> set (map fst (exotic (Some (chars s))))))
      | VNull \<Rightarrow> Inl TypeError
      | VUndefined \<Rightarrow> Inl TypeError
      | _ \<Rightarrow> Inr (VBool False))"

text \<open>
  The remaining built-ins the code uses: \<^verbatim>\<open>Object.prototype.toString.call(o)\<close> (the internal
  class), \<^verbatim>\<open>Array.isArray\<close>, \<^verbatim>\<open>a.length\<close> and \<^verbatim>\<open>a[i]\<close> on arrays, \<^verbatim>\<open>valueOf()\<close> on the
  primitives and their wrappers and on dates, the fields of a regular expression, and
  \<^verbatim>\<open>Object.keys\<close>. \<^verbatim>\<open>valueOf\<close>, \<^verbatim>\<open>length\<close> and the fields of a regular expression are the
  built-in ones: properties are data properties, and no property shadows these.

  \<^verbatim>\<open>Object.keys(o)\<close> is the one of ECMAScript 2015, which the module is written in: it throws
  a \<^verbatim>\<open>TypeError\<close> on \<^verbatim>\<open>null\<close> and \<^verbatim>\<open>undefined\<close> and takes any other primitive for its wrapper
  (no keys, but for the indices of a string); on an object it lists the indices first,
  then the named enumerable properties. Own properties that a kind brings with it under
  other names (\<^verbatim>\<open>callee\<close> of an \<^verbatim>\<open>arguments\<close> object, \<^verbatim>\<open>lastIndex\<close> of a regular expression,
  \<^verbatim>\<open>name\<close> of a function) are non-enumerable and stand in \<open>hidden\<close> when a heap has use
  for them: \<^verbatim>\<open>eq\<close> never asks for them.
\<close>

datatype class_name =
    CArray | CArguments | CFunction | CString | CNumber | CBoolean | CDate | CRegExp
  | CObject | COther

definition toString_call :: "heap \<Rightarrow> val \<Rightarrow> class_name" where
  "toString_call h v =
     (case v of
        VBool _ \<Rightarrow> CBoolean
      | VNum _ \<Rightarrow> CNumber
      | VStr _ \<Rightarrow> CString
      | VRef a \<Rightarrow>
          (case lookup h a of
             None \<Rightarrow> COther
           | Some ob \<Rightarrow>
               (case kind ob of
                  Array _ \<Rightarrow> CArray
                | Arguments _ \<Rightarrow> CArguments
                | Function _ \<Rightarrow> CFunction
                | StringObject _ \<Rightarrow> CString
                | NumberObject _ \<Rightarrow> CNumber
                | BooleanObject _ \<Rightarrow> CBoolean
                | Date _ \<Rightarrow> CDate
                | RegExp _ \<Rightarrow> CRegExp
                | Object \<Rightarrow> CObject
                | Other \<Rightarrow> COther))
      | _ \<Rightarrow> COther)"

definition isArray :: "heap \<Rightarrow> val \<Rightarrow> bool" where
  "isArray h v =
     (case v of
        VRef a \<Rightarrow> (case lookup h a of Some ob \<Rightarrow> (case kind ob of Array _ \<Rightarrow> True | _ \<Rightarrow> False) | None \<Rightarrow> False)
      | _ \<Rightarrow> False)"

definition elements :: "heap \<Rightarrow> val \<Rightarrow> val list" where
  "elements h v =
     (case v of
        VRef a \<Rightarrow>
          (case lookup h a of
             Some ob \<Rightarrow> (case kind ob of Array xs \<Rightarrow> xs | Arguments xs \<Rightarrow> xs | _ \<Rightarrow> [])
           | None \<Rightarrow> [])
      | _ \<Rightarrow> [])"

definition index :: "heap \<Rightarrow> val \<Rightarrow> nat \<Rightarrow> val" where
  "index h v i = (if i < length (elements h v) then elements h v ! i else VUndefined)"

definition valueOf :: "heap \<Rightarrow> val \<Rightarrow> val" where
  "valueOf h v =
     (case v of
        VRef a \<Rightarrow>
          (case lookup h a of
             Some ob \<Rightarrow>
               (case kind ob of
                  StringObject s \<Rightarrow> VStr s
                | NumberObject n \<Rightarrow> VNum n
                | BooleanObject b \<Rightarrow> VBool b
                | Date t \<Rightarrow> VNum t
                | _ \<Rightarrow> v)
           | None \<Rightarrow> v)
      | _ \<Rightarrow> v)"

definition regexp_of :: "heap \<Rightarrow> val \<Rightarrow> regexp option" where
  "regexp_of h v =
     (case v of
        VRef a \<Rightarrow> (case lookup h a of Some ob \<Rightarrow> (case kind ob of RegExp r \<Rightarrow> Some r | _ \<Rightarrow> None) | None \<Rightarrow> None)
      | _ \<Rightarrow> None)"

definition Object_keys :: "heap \<Rightarrow> val \<Rightarrow> error + string list" where
  "Object_keys h v =
     (case v of
        VNull \<Rightarrow> Inl TypeError
      | VUndefined \<Rightarrow> Inl TypeError
      | VStr s \<Rightarrow> Inr (exotic_keys (Some (chars s)))
      | VRef a \<Rightarrow>
          (case lookup h a of
             Some ob \<Rightarrow> Inr (exotic_keys (items (kind ob)) @ map fst (props ob))
           | None \<Rightarrow> Inr [])
      | _ \<Rightarrow> Inr [])"

section \<open>The recursion guard: \<^verbatim>\<open>seenObjects\<close>, \<^verbatim>\<open>seen\<close>, \<^verbatim>\<open>mark\<close>, \<^verbatim>\<open>unmark\<close>\<close>

text \<open>
  \<^verbatim>\<open>seenObjects\<close> is a module-level array of pairs. It is the only mutable state of the
  module, so every function that touches it takes it as its last argument and returns it
  updated.
\<close>

type_synonym guard = "(val \<times> val) list"

fun seen :: "val \<Rightarrow> val \<Rightarrow> guard \<Rightarrow> bool" where
  "seen o1 o2 [] = False"
| "seen o1 o2 (p # ps) = (if strict_eq (fst p) o1 \<and> strict_eq (snd p) o2 then True else seen o1 o2 ps)"

definition mark :: "val \<Rightarrow> val \<Rightarrow> guard \<Rightarrow> guard" where
  "mark o1 o2 s = s @ [(o1, o2)]"

fun unmark :: "val \<Rightarrow> val \<Rightarrow> guard \<Rightarrow> guard" where
  "unmark o1 o2 [] = []"
| "unmark o1 o2 (p # ps) = (if strict_eq (fst p) o1 \<and> strict_eq (snd p) o2 then ps else p # unmark o1 o2 ps)"

text \<open>
  \<^verbatim>\<open>detectRecursion(o1, o2, f)\<close>. The callback closes over a local of its caller (\<^verbatim>\<open>r\<close> in
  \<^verbatim>\<open>arrayEq\<close> and \<^verbatim>\<open>objectEq\<close>); here it takes that local and returns it updated, or the error
  it throws, or \<open>None\<close> when it does not return. \<^verbatim>\<open>try { f(); } finally { unmark(o1, o2); }\<close>
  unmarks on both exits and lets the error through. The two-argument form of the source
  is \<open>detectRecursion o1 VUndefined f\<close>.
\<close>

definition detectRecursion ::
  "val \<Rightarrow> val \<Rightarrow> ('r \<Rightarrow> guard \<Rightarrow> ((error + 'r) \<times> guard) option) \<Rightarrow> 'r \<Rightarrow> guard
     \<Rightarrow> ((error + bool \<times> 'r) \<times> guard) option" where
  "detectRecursion o1 o2 f r s =
     (if seen o1 o2 s then Some (Inr (True, r), s)
      else
        (case f r (mark o1 o2 s) of
           None \<Rightarrow> None
         | Some (Inl e, s') \<Rightarrow> Some (Inl e, unmark o1 o2 s')
         | Some (Inr r', s') \<Rightarrow> Some (Inr (False, r'), unmark o1 o2 s')))"

section \<open>\<^verbatim>\<open>type\<close>\<close>

datatype tag =
    TNull | TUndefined | TNaN | TArray | TArguments | TFunction | TString | TNumber
  | TBoolean | TDate | TRegexp | TObject | TUnknown

definition type :: "heap \<Rightarrow> val \<Rightarrow> error + tag" where
  "type h v =
     (if v = VNull then Inr TNull
      else if v = VUndefined then Inr TUndefined
      else if \<not> strict_eq v v then Inr TNaN
      else
        (case toString_call h v of
           CArray \<Rightarrow> Inr TArray
         | CArguments \<Rightarrow> Inr TArguments
         | CFunction \<Rightarrow> Inr TFunction
         | CString \<Rightarrow> Inr TString
         | CNumber \<Rightarrow> Inr TNumber
         | CBoolean \<Rightarrow> Inr TBoolean
         | CDate \<Rightarrow> Inr TDate
         | CRegExp \<Rightarrow> Inr TRegexp
         | CObject \<Rightarrow>
             (case hasOwnProperty h v ''callee'' of
                Inl e \<Rightarrow> Inl e
              | Inr c \<Rightarrow> if truthy c then Inr TArguments else Inr TObject)
         | COther \<Rightarrow> Inr TUnknown))"

section \<open>\<^verbatim>\<open>eq\<close>, \<^verbatim>\<open>arrayEq\<close>, \<^verbatim>\<open>objectEq\<close>\<close>

text \<open>
  The three functions call each other, and on a cyclic graph it is the guard that makes
  the recursion end; that is proved below, not assumed: the first argument is the
  nesting depth \<^verbatim>\<open>eq\<close> may still use (the room left on the call stack, counted in nested
  calls of \<^verbatim>\<open>eq\<close>), and \<open>None\<close> means that it was not enough: the call does not return
  within that depth. The two \<^verbatim>\<open>for\<close> loops run over the indices, respectively the keys,
  still to visit; a \<^verbatim>\<open>break\<close> returns at once.
\<close>

function (sequential) eq :: "nat \<Rightarrow> heap \<Rightarrow> val \<Rightarrow> val \<Rightarrow> guard \<Rightarrow> ((error + val) \<times> guard) option"
and arrayEq :: "nat \<Rightarrow> heap \<Rightarrow> val \<Rightarrow> val \<Rightarrow> guard \<Rightarrow> ((error + val) \<times> guard) option"
and arrayEq_loop :: "nat \<Rightarrow> heap \<Rightarrow> val \<Rightarrow> val \<Rightarrow> nat list \<Rightarrow> bool \<Rightarrow> guard \<Rightarrow> ((error + bool) \<times> guard) option"
and objectEq :: "nat \<Rightarrow> heap \<Rightarrow> val \<Rightarrow> val \<Rightarrow> guard \<Rightarrow> ((error + val) \<times> guard) option"
and objectEq_loop :: "nat \<Rightarrow> heap \<Rightarrow> val \<Rightarrow> val \<Rightarrow> string list \<Rightarrow> bool \<Rightarrow> guard \<Rightarrow> ((error + bool) \<times> guard) option"
where
  "eq 0 h a b s = None"
| "eq (Suc n) h a b s =
     (if strict_eq a b then Some (Inr (VBool True), s)
      else if truthy a \<and> truthy (get_prop h a ''objectId'') \<and> is_function h (get_prop h a ''eq'')
      then Some (call h (get_prop h a ''eq'') a b, s)
      else
        (case type h a of
           Inl e \<Rightarrow> Some (Inl e, s)
         | Inr atype \<Rightarrow>
             (case type h b of
                Inl e \<Rightarrow> Some (Inl e, s)
              | Inr btype \<Rightarrow>
                  if atype \<noteq> btype then Some (Inr (VBool False), s)
                  else
                    (case atype of
                       TBoolean \<Rightarrow> Some (Inr (VBool (strict_eq (valueOf h a) (valueOf h b))), s)
                     | TString \<Rightarrow> Some (Inr (VBool (strict_eq (valueOf h a) (valueOf h b))), s)
                     | TDate \<Rightarrow> Some (Inr (VBool (strict_eq (valueOf h a) (valueOf h b))), s)
                     | TNumber \<Rightarrow> Some (Inr (VBool (strict_eq (valueOf h a) (valueOf h b))), s)
                     | TRegexp \<Rightarrow>
                         (case (regexp_of h a, regexp_of h b) of
                            (Some ra, Some rb) \<Rightarrow>
                              Some (Inr (VBool (source ra = source rb \<and> global ra = global rb \<and>
                                                multiline ra = multiline rb \<and> ignoreCase ra = ignoreCase rb)), s)
                          | _ \<Rightarrow> Some (Inr (VBool False), s))
                     | TArray \<Rightarrow> arrayEq n h a b s
                     | TObject \<Rightarrow> objectEq n h a b s
                     | _ \<Rightarrow> Some (Inr (VBool False), s)))))"
| "arrayEq n h a b s =
     (if \<not> isArray h a \<or> \<not> isArray h b then Some (Inr (VBool False), s)
      else if length (elements h a) \<noteq> length (elements h b) then Some (Inr (VBool False), s)
      else
        (case detectRecursion a b (arrayEq_loop n h a b [0..<length (elements h a)]) True s of
           None \<Rightarrow> None
         | Some (Inl e, s') \<Rightarrow> Some (Inl e, s')
         | Some (Inr (_, r), s') \<Rightarrow> Some (Inr (VBool r), s')))"
| "arrayEq_loop n h a b [] r s = Some (Inr r, s)"
| "arrayEq_loop n h a b (i # is) r s =
     (case eq n h (index h a i) (index h b i) s of
        None \<Rightarrow> None
      | Some (Inl e, s') \<Rightarrow> Some (Inl e, s')
      | Some (Inr v, s') \<Rightarrow> if \<not> truthy v then Some (Inr False, s') else arrayEq_loop n h a b is r s')"
| "objectEq n h a b s =
     (case Object_keys h a of
        Inl e \<Rightarrow> Some (Inl e, s)
      | Inr akeys \<Rightarrow>
          (case Object_keys h b of
             Inl e \<Rightarrow> Some (Inl e, s)
           | Inr bkeys \<Rightarrow>
               if length akeys \<noteq> length bkeys then Some (Inr (VBool False), s)
               else
                 (case detectRecursion a b (objectEq_loop n h a b akeys) True s of
                    None \<Rightarrow> None
                  | Some (Inl e, s') \<Rightarrow> Some (Inl e, s')
                  | Some (Inr (_, r), s') \<Rightarrow> Some (Inr (VBool r), s'))))"
| "objectEq_loop n h a b [] r s = Some (Inr r, s)"
| "objectEq_loop n h a b (key # ks) r s =
     (case hasOwnProperty h b key of
        Inl e \<Rightarrow> Some (Inl e, s)
      | Inr p \<Rightarrow>
          if \<not> truthy p then Some (Inr False, s)
          else
            (case eq n h (get_prop h a key) (get_prop h b key) s of
               None \<Rightarrow> None
             | Some (Inl e, s') \<Rightarrow> Some (Inl e, s')
             | Some (Inr v, s') \<Rightarrow> if \<not> truthy v then Some (Inr False, s') else objectEq_loop n h a b ks r s'))"
  by pat_completeness auto

termination
  by (relation "measures
        [case_sum (case_sum (\<lambda>(n, h, a, b, s). n) (\<lambda>(n, h, a, b, s). n))
           (case_sum (\<lambda>(n, h, a, b, is, r, s). n)
              (case_sum (\<lambda>(n, h, a, b, s). n) (\<lambda>(n, h, a, b, ks, r, s). n))),
         case_sum (case_sum (\<lambda>_. 0) (\<lambda>_. 2))
           (case_sum (\<lambda>_. 1) (case_sum (\<lambda>_. 2) (\<lambda>_. 1))),
         case_sum (\<lambda>_. 0)
           (case_sum (\<lambda>(n, h, a, b, is, r, s). length is)
              (case_sum (\<lambda>_. 0) (\<lambda>(n, h, a, b, ks, r, s). length ks)))]")
     simp_all

section \<open>What a call returns\<close>

text \<open>
  \<open>fuel h\<close> is a nesting depth that is always enough (proved below): one more than the
  number of pairs of objects of the heap. \<open>unguarded h s\<close> counts the pairs of objects
  that are not in the guard \<open>s\<close>; every \<^verbatim>\<open>mark\<close> the code does lowers it.
\<close>

definition fuel :: "heap \<Rightarrow> nat" where
  "fuel h = Suc (length h * length h)"

definition unguarded :: "heap \<Rightarrow> guard \<Rightarrow> nat" where
  "unguarded h s = card {(x, y). x < length h \<and> y < length h \<and> \<not> seen (VRef x) (VRef y) s}"

text \<open>
  \<open>outcome h a b s\<close> is what the call \<^verbatim>\<open>eq(a, b)\<close> made with guard \<open>s\<close> returns or throws
  (its \<open>None\<close> case never arises: with depth \<open>fuel h\<close> the call returns, lemma
  \<open>eq_fuel_outcome\<close>). The other definitions of this section say the same for the two loops and for
  \<^verbatim>\<open>arrayEq\<close> and \<^verbatim>\<open>objectEq\<close> in terms of \<open>outcome\<close>; they are proved equal to the
  functions above and carry no recursion of their own. \<open>delegate h a\<close> is the test
  \<^verbatim>\<open>a && a.objectId && typeof a.eq === 'function'\<close> of \<^verbatim>\<open>eq\<close>.
\<close>

definition outcome :: "heap \<Rightarrow> val \<Rightarrow> val \<Rightarrow> guard \<Rightarrow> error + val" where
  "outcome h a b s = (case eq (fuel h) h a b s of Some (r, _) \<Rightarrow> r | None \<Rightarrow> Inl TypeError)"

fun loop_outcome :: "bool \<Rightarrow> (error + val) list \<Rightarrow> error + bool" where
  "loop_outcome r [] = Inr r"
| "loop_outcome r (Inl e # rs) = Inl e"
| "loop_outcome r (Inr v # rs) = (if \<not> truthy v then Inr False else loop_outcome r rs)"

definition delegate :: "heap \<Rightarrow> val \<Rightarrow> bool" where
  "delegate h a = (truthy a \<and> truthy (get_prop h a ''objectId'') \<and> is_function h (get_prop h a ''eq''))"

definition array_outcome :: "heap \<Rightarrow> val \<Rightarrow> val \<Rightarrow> guard \<Rightarrow> error + val" where
  "array_outcome h a b s =
     (if \<not> isArray h a \<or> \<not> isArray h b then Inr (VBool False)
      else if length (elements h a) \<noteq> length (elements h b) then Inr (VBool False)
      else if seen a b s then Inr (VBool True)
      else
        (case loop_outcome True
                (map (\<lambda>i. outcome h (index h a i) (index h b i) (mark a b s)) [0..<length (elements h a)]) of
           Inl e \<Rightarrow> Inl e
         | Inr r \<Rightarrow> Inr (VBool r)))"

definition key_outcome :: "heap \<Rightarrow> val \<Rightarrow> val \<Rightarrow> guard \<Rightarrow> string \<Rightarrow> error + val" where
  "key_outcome h a b s key =
     (case hasOwnProperty h b key of
        Inl e \<Rightarrow> Inl e
      | Inr p \<Rightarrow> if \<not> truthy p then Inr (VBool False) else outcome h (get_prop h a key) (get_prop h b key) s)"

definition object_outcome :: "heap \<Rightarrow> val \<Rightarrow> val \<Rightarrow> guard \<Rightarrow> error + val" where
  "object_outcome h a b s =
     (case Object_keys h a of
        Inl e \<Rightarrow> Inl e
      | Inr akeys \<Rightarrow>
          (case Object_keys h b of
             Inl e \<Rightarrow> Inl e
           | Inr bkeys \<Rightarrow>
               if length akeys \<noteq> length bkeys then Inr (VBool False)
               else if seen a b s then Inr (VBool True)
               else
                 (case loop_outcome True (map (key_outcome h a b (mark a b s)) akeys) of
                    Inl e \<Rightarrow> Inl e
                  | Inr r \<Rightarrow> Inr (VBool r))))"

section \<open>Conditions on the values a comparison reaches\<close>

text \<open>
  \<open>reads h v\<close> lists the values that \<^verbatim>\<open>arrayEq\<close> and \<^verbatim>\<open>objectEq\<close> can read from \<open>v\<close> and pass
  on to \<^verbatim>\<open>eq\<close>: the elements of an array, the own properties of a keyed object. A set of
  values is closed when it holds, with each of its values, the values read from it; a
  closed set that holds \<^verbatim>\<open>a\<close> and \<^verbatim>\<open>b\<close> holds every value the comparison of \<^verbatim>\<open>a\<close> and \<^verbatim>\<open>b\<close>
  reaches.
\<close>

definition reads :: "heap \<Rightarrow> val \<Rightarrow> val list" where
  "reads h v =
     (case v of
        VRef x \<Rightarrow>
          (case lookup h x of
             Some ob \<Rightarrow>
               (case kind ob of
                  Array xs \<Rightarrow> xs
                | Object \<Rightarrow> map snd (props ob @ hidden ob)
                | _ \<Rightarrow> [])
           | None \<Rightarrow> [])
      | _ \<Rightarrow> [])"

definition closed :: "heap \<Rightarrow> val set \<Rightarrow> bool" where
  "closed h R = (\<forall>v\<in>R. set (reads h v) \<subseteq> R)"

text \<open>
  The values on which \<^verbatim>\<open>eq\<close> neither delegates nor throws: the value does not carry a
  truthy \<^verbatim>\<open>objectId\<close> together with a function \<^verbatim>\<open>eq\<close>, and if it is a keyed object its
  \<^verbatim>\<open>hasOwnProperty\<close> is the built-in of \<^verbatim>\<open>Object.prototype\<close>.
\<close>

definition plain :: "heap \<Rightarrow> val \<Rightarrow> bool" where
  "plain h v =
     (\<not> delegate h v \<and>
      (case v of
         VRef x \<Rightarrow>
           (case lookup h x of
              Some ob \<Rightarrow>
                kind ob = Object \<longrightarrow>
                  map_of (props ob @ hidden ob @ inherited ob) ''hasOwnProperty'' = None \<and> objectProto ob
            | None \<Rightarrow> True)
       | _ \<Rightarrow> True))"

text \<open>
  The values that, if they are keyed objects, have only enumerable own properties (and
  whose \<open>props\<close> list each key once, as \<^verbatim>\<open>Object.keys\<close> does).
\<close>

definition enumerable_own :: "heap \<Rightarrow> val \<Rightarrow> bool" where
  "enumerable_own h v =
     (case v of
        VRef x \<Rightarrow>
          (case lookup h x of
             Some ob \<Rightarrow> kind ob = Object \<longrightarrow> hidden ob = [] \<and> distinct (map fst (props ob))
           | None \<Rightarrow> True)
      | _ \<Rightarrow> True)"

section \<open>Example heaps\<close>

text \<open>
  \<open>std k ps\<close> is an object of kind \<open>k\<close> with the enumerable own properties \<open>ps\<close> that
  inherits from its standard prototype, as a literal or a constructor call makes it.
\<close>

definition std :: "kind \<Rightarrow> (string \<times> val) list \<Rightarrow> obj" where
  "std k ps = \<lparr>kind = k, props = ps, hidden = [], inherited = [], objectProto = True\<rparr>"


text \<open>
  \<^verbatim>\<open>var a = [1]; a.push(a); var b = [1]; b.push(b);\<close> with \<^verbatim>\<open>a\<close> at address 0 and \<^verbatim>\<open>b\<close>
  at address 1.
\<close>

definition self_arrays :: heap where
  "self_arrays = [std (Array [VNum (Finite 1), VRef 0]) [], std (Array [VNum (Finite 1), VRef 1]) []]"

text \<open>
  \<open>bare\<close> is \<^verbatim>\<open>Object.create(null)\<close>: a keyed object with no properties and no prototype.
  \<open>bare_in_arrays\<close> is \<^verbatim>\<open>[[p], [q], p, q]\<close> for two such objects \<^verbatim>\<open>p\<close> and \<^verbatim>\<open>q\<close>.
\<close>

definition bare :: obj where
  "bare = \<lparr>kind = Object, props = [], hidden = [], inherited = [], objectProto = False\<rparr>"

definition bare_in_arrays :: heap where
  "bare_in_arrays = [std (Array [VRef 2]) [], std (Array [VRef 3]) [], bare, bare]"

text \<open>
  \<^verbatim>\<open>var a = [1]; a.push(a, 2); var b = [1]; b.push(b, 3);\<close>: two self-referential arrays
  that differ in their last element.
\<close>

definition diverging_arrays :: heap where
  "diverging_arrays =
     [std (Array [VNum (Finite 1), VRef 0, VNum (Finite 2)]) [],
      std (Array [VNum (Finite 1), VRef 1, VNum (Finite 3)]) []]"

text \<open>\<^verbatim>\<open>[Object.create(null), Object.create(null)]\<close>.\<close>

definition two_bare :: heap where
  "two_bare = [bare, bare]"

text \<open>\<^verbatim>\<open>[/a/, /a/y]\<close>: the same source, the second with the sticky flag.\<close>

definition plain_and_sticky :: heap where
  "plain_and_sticky =
     [std (RegExp \<lparr>source = ''a'', global = False, multiline = False, ignoreCase = False,
                    sticky = False, unicode = False, dotAll = False\<rparr>) [],
      std (RegExp \<lparr>source = ''a'', global = False, multiline = False, ignoreCase = False,
                    sticky = True, unicode = False, dotAll = False\<rparr>) []]"

text \<open>
  Two \<^verbatim>\<open>arguments\<close> objects, each made by a call \<^verbatim>\<open>(function () { return arguments; })(1)\<close>.
\<close>

definition two_arguments :: heap where
  "two_arguments = [std (Arguments [VNum (Finite 1)]) [], std (Arguments [VNum (Finite 1)]) []]"

text \<open>
  \<^verbatim>\<open>var m = new RynoObject(); var a = [m]; var b = [{}];\<close> with \<^verbatim>\<open>a\<close> at address 0, \<^verbatim>\<open>b\<close> at 1,
  \<^verbatim>\<open>m\<close> at 2, \<^verbatim>\<open>{}\<close> at 3 and \<^verbatim>\<open>RynoObject.prototype.eq\<close> at 4. The constructor defines the
  non-enumerable \<^verbatim>\<open>objectId\<close>; \<^verbatim>\<open>eq\<close> is inherited and returns \<^verbatim>\<open>this === other\<close>.
\<close>

definition model_in_array :: heap where
  "model_in_array =
     [std (Array [VRef 2]) [],
      std (Array [VRef 3]) [],
      \<lparr>kind = Object, props = [], hidden = [(''objectId'', VNum (Finite 1))],
        inherited = [(''eq'', VRef 4)], objectProto = True\<rparr>,
      std Object [],
      std (Function (\<lambda>this other. Inr (VBool (strict_eq this other)))) []]"

text \<open>
  \<^verbatim>\<open>var a = {foo: 1}; a.self = a; var b = {}; b.self = b; b.foo = 1;\<close>: two cyclic objects
  whose keys come in different orders.
\<close>

definition key_orders :: heap where
  "key_orders =
     [std Object [(''foo'', VNum (Finite 1)), (''self'', VRef 0)],
      std Object [(''self'', VRef 1), (''foo'', VNum (Finite 1))]]"

text \<open>
  \<^verbatim>\<open>var m = new M();\<close> for a subclass \<^verbatim>\<open>M\<close> of \<^verbatim>\<open>RynoObject\<close> that overrides \<^verbatim>\<open>eq\<close> by
  \<^verbatim>\<open>function (other) { return 'yes'; }\<close>: \<^verbatim>\<open>m\<close> at address 0, the method at address 1.
\<close>

definition yes_model :: heap where
  "yes_model =
     [\<lparr>kind = Object, props = [], hidden = [(''objectId'', VNum (Finite 1))],
        inherited = [(''eq'', VRef 1)], objectProto = True\<rparr>,
      std (Function (\<lambda>this other. Inr (VStr ''yes''))) []]"


text \<open>
  \<^verbatim>\<open>var d = new Date(NaN); d.objectId = 1; d.eq = function (other) { return true; };\<close> at
  address 0, \<^verbatim>\<open>new Date(NaN)\<close> at address 1, the function at address 2.
\<close>

definition delegating_dates :: heap where
  "delegating_dates =
     [std (Date NaN) [(''objectId'', VNum (Finite 1)), (''eq'', VRef 2)],
      std (Date NaN) [],
      std (Function (\<lambda>this other. Inr (VBool True))) []]"

text \<open>\<^verbatim>\<open>[[1, 2, 3], [1, 2, 3]]\<close>: two arrays with equal elements.\<close>

definition plain_arrays :: heap where
  "plain_arrays =
     [std (Array [VNum (Finite 1), VNum (Finite 2), VNum (Finite 3)]) [],
      std (Array [VNum (Finite 1), VNum (Finite 2), VNum (Finite 3)]) []]"

section \<open>The guard is restored by every call\<close>

text \<open>
  The equations of \<^verbatim>\<open>eq\<close>, \<^verbatim>\<open>arrayEq\<close> and \<^verbatim>\<open>objectEq\<close> are unfolded by hand in the
  proofs.
\<close>

declare arrayEq.simps [simp del] objectEq.simps [simp del] eq.simps(2) [simp del]

declare index_key.simps [simp del] exotic.simps(2) [simp del]

lemma items_simps [simp]:
  "items (Array xs) = Some xs" "items (Arguments xs) = Some xs" "items (StringObject str) = Some (chars str)"
  "items (Function f) = None" "items (NumberObject m) = None" "items (BooleanObject t) = None"
  "items (Date m) = None" "items (RegExp re) = None" "items Object = None" "items Other = None"
  by (simp_all add: items_def)

text \<open>The name of an index is made of digits, so it is no name the code spells out.\<close>

lemma digit_in: "d < 10 \<Longrightarrow> digit d \<in> set ''0123456789''"
  unfolding digit_def by (rule nth_mem) simp

lemma index_key_digits: "set (index_key n) \<subseteq> set ''0123456789''"
proof (induction n rule: index_key.induct)
  case (1 n)
  show ?case
  proof (cases "n < 10")
    case True
    then show ?thesis using digit_in [of n] by (subst index_key.simps) simp
  next
    case False
    with 1 digit_in [of "n mod 10"] show ?thesis by (subst index_key.simps) simp
  qed
qed

lemma exotic_keys_cases:
  assumes "key \<in> set (map fst (exotic it))"
  shows "set key \<subseteq> set ''0123456789'' \<or> key = ''length''"
proof (cases it)
  case None
  with assms show ?thesis by simp
next
  case (Some xs)
  with assms have "key \<in> set (map fst (zip (index_keys (length xs)) xs)) \<or> key = ''length''"
    by (auto simp: exotic.simps(2))
  then show ?thesis
  proof
    assume "key \<in> set (map fst (zip (index_keys (length xs)) xs))"
    then have "key \<in> set (index_keys (length xs))" by (auto dest: set_zip_leftD)
    then obtain i where "key = index_key i" by (auto simp: index_keys_def)
    with index_key_digits [of i] show ?thesis by simp
  qed simp
qed

lemma named_exotic [simp]:
  "\<not> set key \<subseteq> set ''0123456789'' \<Longrightarrow> key \<noteq> ''length'' \<Longrightarrow> map_of (exotic it) key = None"
  using exotic_keys_cases [of key it] by (auto simp: map_of_eq_None_iff)

lemma named_exotic_mem [simp]:
  "\<not> set key \<subseteq> set ''0123456789'' \<Longrightarrow> key \<noteq> ''length'' \<Longrightarrow> key \<notin> fst ` set (exotic it)"
  using exotic_keys_cases [of key it] by auto

lemma seen_mark: "seen o1 o2 (mark p1 p2 s) = (seen o1 o2 s \<or> (strict_eq p1 o1 \<and> strict_eq p2 o2))"
  by (induction s) (auto simp: mark_def)

lemma unmark_mark:
  "\<not> seen o1 o2 s \<Longrightarrow> strict_eq o1 o1 \<Longrightarrow> strict_eq o2 o2 \<Longrightarrow> unmark o1 o2 (mark o1 o2 s) = s"
  by (induction s) (auto simp: mark_def)

lemma isArray_ref: "isArray h a \<Longrightarrow> \<exists>x. a = VRef x \<and> x < length h"
  by (auto simp: isArray_def lookup_def split: val.splits option.splits if_splits)

lemma type_Object_ref: "type h a = Inr TObject \<Longrightarrow> \<exists>x. a = VRef x \<and> x < length h"
  by (auto simp: type_def toString_call_def lookup_def
        split: if_splits val.splits option.splits kind.splits class_name.splits sum.splits)

lemma strict_eq_ref [simp]: "strict_eq (VRef x) v = (v = VRef x)"
  by (auto simp: strict_eq_def)



section \<open>Termination: the depth \<^verbatim>\<open>eq\<close> needs is bounded by the pairs not yet in the guard\<close>

lemma detectRecursion_mono:
  assumes "detectRecursion o1 o2 f r s = Some x"
    and "\<And>y. f r (mark o1 o2 s) = Some y \<Longrightarrow> g r (mark o1 o2 s) = Some y"
  shows "detectRecursion o1 o2 g r s = Some x"
  using assms
  by (auto simp: detectRecursion_def split: if_splits option.splits sum.splits prod.splits)

lemma fuel_mono_all:
  "(\<forall>x. eq n h a b s = Some x \<longrightarrow> eq (n + k) h a b s = Some x)"
  "(\<forall>x. arrayEq n1 h1 a1 b1 s1 = Some x \<longrightarrow> arrayEq (n1 + k) h1 a1 b1 s1 = Some x)"
  "(\<forall>x. arrayEq_loop n2 h2 a2 b2 is r2 s2 = Some x \<longrightarrow> arrayEq_loop (n2 + k) h2 a2 b2 is r2 s2 = Some x)"
  "(\<forall>x. objectEq n3 h3 a3 b3 s3 = Some x \<longrightarrow> objectEq (n3 + k) h3 a3 b3 s3 = Some x)"
  "(\<forall>x. objectEq_loop n4 h4 a4 b4 ks r4 s4 = Some x \<longrightarrow> objectEq_loop (n4 + k) h4 a4 b4 ks r4 s4 = Some x)"
proof (induction n h a b s and n1 h1 a1 b1 s1 and n2 h2 a2 b2 "is" r2 s2 and n3 h3 a3 b3 s3 and n4 h4 a4 b4 ks r4 s4
    rule: eq_arrayEq_arrayEq_loop_objectEq_objectEq_loop.induct)
  case (1 h a b s)
  then show ?case by simp
next
  case (2 n h a b s)
  then show ?case
    by (auto simp: eq.simps(2) split: if_splits sum.splits tag.splits option.splits)
next
  case (3 n h a b s)
  show ?case
  proof (intro allI impI)
    fix x assume run: "arrayEq n h a b s = Some x"
    show "arrayEq (n + k) h a b s = Some x"
    proof (cases "\<not> isArray h a \<or> \<not> isArray h b \<or> length (elements h a) \<noteq> length (elements h b)")
      case True
      with run show ?thesis by (auto simp: arrayEq.simps split: if_splits)
    next
      case False
      from run False obtain d where d: "detectRecursion a b (arrayEq_loop n h a b [0..<length (elements h a)]) True s = Some d"
        by (auto simp: arrayEq.simps split: option.splits)
      have "detectRecursion a b (arrayEq_loop (n + k) h a b [0..<length (elements h a)]) True s = Some d"
        using detectRecursion_mono [OF d] 3 False by blast
      with d run False show ?thesis by (simp add: arrayEq.simps)
    qed
  qed
next
  case (4 n h a b r s)
  then show ?case by simp
next
  case (5 n h a b i "is" r s)
  show ?case
  proof (intro allI impI)
    fix x assume run: "arrayEq_loop n h a b (i # is) r s = Some x"
    then obtain x2 where e: "eq n h (index h a i) (index h b i) s = Some x2"
      by (auto split: option.splits)
    with 5(1) have e': "eq (n + k) h (index h a i) (index h b i) s = Some x2" by blast
    obtain u y where x2: "x2 = (u, y)" by (cases x2)
    show "arrayEq_loop (n + k) h a b (i # is) r s = Some x"
    proof (cases u)
      case (Inl err)
      with run e e' x2 show ?thesis by simp
    next
      case (Inr v)
      show ?thesis
      proof (cases "truthy v")
        case True
        with run e x2 Inr have "arrayEq_loop n h a b is r y = Some x" by simp
        with 5(2) [OF e, of u y v] x2 Inr True have "arrayEq_loop (n + k) h a b is r y = Some x" by blast
        with e' x2 Inr True show ?thesis by simp
      next
        case False
        with run e e' x2 Inr show ?thesis by simp
      qed
    qed
  qed
next
  case (6 n h a b s)
  show ?case
  proof (intro allI impI)
    fix x assume run: "objectEq n h a b s = Some x"
    show "objectEq (n + k) h a b s = Some x"
    proof (cases "\<exists>ak bk. Object_keys h a = Inr ak \<and> Object_keys h b = Inr bk \<and> length ak = length bk")
      case False
      with run show ?thesis by (auto simp: objectEq.simps split: sum.splits if_splits)
    next
      case True
      then obtain ak bk where k: "Object_keys h a = Inr ak" "Object_keys h b = Inr bk" "length ak = length bk"
        by blast
      from run k obtain d where d: "detectRecursion a b (objectEq_loop n h a b ak) True s = Some d"
        by (auto simp: objectEq.simps split: option.splits)
      have "detectRecursion a b (objectEq_loop (n + k) h a b ak) True s = Some d"
        using detectRecursion_mono [OF d] 6 [OF k(1) k(2)] k(3) by blast
      with d run k show ?thesis by (simp add: objectEq.simps)
    qed
  qed
next
  case (7 n h a b r s)
  then show ?case by simp
next
  case (8 n h a b key ks r s)
  show ?case
  proof (intro allI impI)
    fix x assume run: "objectEq_loop n h a b (key # ks) r s = Some x"
    show "objectEq_loop (n + k) h a b (key # ks) r s = Some x"
    proof (cases "\<exists>p. hasOwnProperty h b key = Inr p \<and> truthy p")
      case False
      with run show ?thesis by (auto split: sum.splits if_splits)
    next
      case True
      then obtain p where p: "hasOwnProperty h b key = Inr p" "truthy p" by blast
      with run obtain x2 where e: "eq n h (get_prop h a key) (get_prop h b key) s = Some x2"
        by (auto split: option.splits)
      with 8(1) p have e': "eq (n + k) h (get_prop h a key) (get_prop h b key) s = Some x2" by simp
      obtain u y where x2: "x2 = (u, y)" by (cases x2)
      show ?thesis
      proof (cases u)
        case (Inl err)
        with run e e' x2 p show ?thesis by simp
      next
        case (Inr v)
        show ?thesis
        proof (cases "truthy v")
          case tv: True
          with run e x2 Inr p have "objectEq_loop n h a b ks r y = Some x" by simp
          with 8(2) [OF p(1) _ e, of u y v] p x2 Inr tv have "objectEq_loop (n + k) h a b ks r y = Some x" by simp
          with e' x2 Inr tv p show ?thesis by simp
        next
          case False
          with run e e' x2 Inr p show ?thesis by simp
        qed
      qed
    qed
  qed
qed

lemma unguarded_le: "unguarded h s \<le> length h * length h"
proof -
  have "{(x, y). x < length h \<and> y < length h \<and> \<not> seen (VRef x) (VRef y) s} \<subseteq> {..<length h} \<times> {..<length h}"
    by auto
  then have "unguarded h s \<le> card ({..<length h} \<times> {..<length h})"
    unfolding unguarded_def by (intro card_mono) auto
  then show ?thesis by simp
qed

lemma unguarded_mark:
  assumes "x < length h" "y < length h" "\<not> seen (VRef x) (VRef y) s"
  shows "unguarded h (mark (VRef x) (VRef y) s) < unguarded h s"
proof -
  let ?A = "{(x, y). x < length h \<and> y < length h \<and> \<not> seen (VRef x) (VRef y) (mark (VRef x) (VRef y) s)}"
  let ?B = "{(x, y). x < length h \<and> y < length h \<and> \<not> seen (VRef x) (VRef y) s}"
  have fin: "finite ?B"
    by (rule finite_subset [of _ "{..<length h} \<times> {..<length h}"]) auto
  have "(x, y) \<in> ?B" using assms by simp
  moreover have "(x, y) \<notin> {(u, v). u < length h \<and> v < length h \<and> \<not> seen (VRef u) (VRef v) (mark (VRef x) (VRef y) s)}"
    by (simp add: seen_mark)
  moreover have "{(u, v). u < length h \<and> v < length h \<and> \<not> seen (VRef u) (VRef v) (mark (VRef x) (VRef y) s)} \<subseteq> ?B"
    by (auto simp: seen_mark)
  ultimately have "{(u, v). u < length h \<and> v < length h \<and> \<not> seen (VRef u) (VRef v) (mark (VRef x) (VRef y) s)} \<subset> ?B"
    by blast
  then show ?thesis unfolding unguarded_def using fin by (rule psubset_card_mono [rotated])
qed


lemma detectRecursion_seen: "seen o1 o2 s \<Longrightarrow> detectRecursion o1 o2 f r s = Some (Inr (True, r), s)"
  by (simp add: detectRecursion_def)

lemma detectRecursion_run:
  assumes "\<not> seen o1 o2 s" "strict_eq o1 o1" "strict_eq o2 o2"
    and "f r (mark o1 o2 s) = Some (res, mark o1 o2 s)"
  shows "detectRecursion o1 o2 f r s = Some (case res of Inl e \<Rightarrow> Inl e | Inr r' \<Rightarrow> Inr (False, r'), s)"
  using assms by (simp add: detectRecursion_def unmark_mark split: sum.splits)

lemma returns_all:
  "unguarded h s < n \<longrightarrow> (\<exists>r. eq n h a b s = Some (r, s))"
  "unguarded h1 s1 \<le> n1 \<longrightarrow> (\<exists>r. arrayEq n1 h1 a1 b1 s1 = Some (r, s1))"
  "unguarded h2 s2 < n2 \<longrightarrow> (\<exists>r. arrayEq_loop n2 h2 a2 b2 is r2 s2 = Some (r, s2))"
  "unguarded h3 s3 \<le> n3 \<and> type h3 a3 = Inr TObject \<and> type h3 b3 = Inr TObject \<longrightarrow>
     (\<exists>r. objectEq n3 h3 a3 b3 s3 = Some (r, s3))"
  "unguarded h4 s4 < n4 \<longrightarrow> (\<exists>r. objectEq_loop n4 h4 a4 b4 ks r4 s4 = Some (r, s4))"
proof (induction n h a b s and n1 h1 a1 b1 s1 and n2 h2 a2 b2 "is" r2 s2 and n3 h3 a3 b3 s3 and n4 h4 a4 b4 ks r4 s4
    rule: eq_arrayEq_arrayEq_loop_objectEq_objectEq_loop.induct)
  case (1 h a b s)
  then show ?case by simp
next
  case (2 n h a b s)
  then show ?case
    by (auto simp: eq.simps(2) less_Suc_eq_le split: if_splits sum.splits tag.splits option.splits)
next
  case (3 n h a b s)
  show ?case
  proof
    assume le: "unguarded h s \<le> n"
    show "\<exists>r. arrayEq n h a b s = Some (r, s)"
    proof (cases "\<not> isArray h a \<or> \<not> isArray h b \<or> length (elements h a) \<noteq> length (elements h b)")
      case True
      then show ?thesis by (auto simp: arrayEq.simps)
    next
      case False
      show ?thesis
      proof (cases "seen a b s")
        case True
        with False show ?thesis by (simp add: arrayEq.simps detectRecursion_seen)
      next
        case ns: False
        from False obtain x y where xy: "a = VRef x" "x < length h" "b = VRef y" "y < length h"
          using isArray_ref by blast
        with ns le have "unguarded h (mark a b s) < n"
          using unguarded_mark [of x h y s] by simp
        with 3 False obtain r where lp: "arrayEq_loop n h a b [0..<length (elements h a)] True (mark a b s) = Some (r, mark a b s)"
          by blast
        have "detectRecursion a b (arrayEq_loop n h a b [0..<length (elements h a)]) True s =
              Some (case r of Inl e \<Rightarrow> Inl e | Inr r' \<Rightarrow> Inr (False, r'), s)"
          using ns xy lp by (intro detectRecursion_run) auto
        with False show ?thesis
          by (simp add: arrayEq.simps split: sum.splits)
      qed
    qed
  qed
next
  case (4 n h a b r s)
  then show ?case by simp
next
  case (5 n h a b i "is" r s)
  show ?case
  proof
    assume lt: "unguarded h s < n"
    with 5(1) obtain u where e: "eq n h (index h a i) (index h b i) s = Some (u, s)" by blast
    show "\<exists>r'. arrayEq_loop n h a b (i # is) r s = Some (r', s)"
    proof (cases u)
      case (Inl err)
      with e show ?thesis by simp
    next
      case (Inr v)
      show ?thesis
      proof (cases "truthy v")
        case True
        with 5(2) [OF e, of u s v] Inr lt obtain r' where "arrayEq_loop n h a b is r s = Some (r', s)" by blast
        with e Inr True show ?thesis by simp
      next
        case False
        with e Inr show ?thesis by simp
      qed
    qed
  qed
next
  case (6 n h a b s)
  show ?case
  proof
    assume pre: "unguarded h s \<le> n \<and> type h a = Inr TObject \<and> type h b = Inr TObject"
    then have le: "unguarded h s \<le> n" by simp
    from pre obtain x y where xy: "a = VRef x" "x < length h" "b = VRef y" "y < length h"
      using type_Object_ref by blast
    show "\<exists>r. objectEq n h a b s = Some (r, s)"
    proof (cases "\<exists>ak bk. Object_keys h a = Inr ak \<and> Object_keys h b = Inr bk \<and> length ak = length bk")
      case False
      then show ?thesis by (auto simp: objectEq.simps split: sum.splits)
    next
      case True
      then obtain ak bk where k: "Object_keys h a = Inr ak" "Object_keys h b = Inr bk" "length ak = length bk"
        by blast
      show ?thesis
      proof (cases "seen a b s")
        case True
        with k show ?thesis by (simp add: objectEq.simps detectRecursion_seen)
      next
        case ns: False
        from xy ns le have "unguarded h (mark a b s) < n"
          using unguarded_mark [of x h y s] by simp
        with 6 [OF k(1) k(2)] k(3) obtain r where lp: "objectEq_loop n h a b ak True (mark a b s) = Some (r, mark a b s)"
          by blast
        have "detectRecursion a b (objectEq_loop n h a b ak) True s =
              Some (case r of Inl e \<Rightarrow> Inl e | Inr r' \<Rightarrow> Inr (False, r'), s)"
          using ns xy lp by (intro detectRecursion_run) auto
        with k show ?thesis
          by (simp add: objectEq.simps split: sum.splits)
      qed
    qed
  qed
next
  case (7 n h a b r s)
  then show ?case by simp
next
  case (8 n h a b key ks r s)
  show ?case
  proof
    assume lt: "unguarded h s < n"
    show "\<exists>r'. objectEq_loop n h a b (key # ks) r s = Some (r', s)"
    proof (cases "\<exists>p. hasOwnProperty h b key = Inr p \<and> truthy p")
      case False
      then show ?thesis by (auto split: sum.splits)
    next
      case True
      then obtain p where p: "hasOwnProperty h b key = Inr p" "truthy p" by blast
      with 8(1) lt obtain u where e: "eq n h (get_prop h a key) (get_prop h b key) s = Some (u, s)" by blast
      show ?thesis
      proof (cases u)
        case (Inl err)
        with e p show ?thesis by simp
      next
        case (Inr v)
        show ?thesis
        proof (cases "truthy v")
          case tv: True
          with 8(2) [OF p(1) _ e, of u s v] p Inr lt obtain r' where "objectEq_loop n h a b ks r s = Some (r', s)" by auto
          with e Inr tv p show ?thesis by simp
        next
          case False
          with e Inr p show ?thesis by simp
        qed
      qed
    qed
  qed
qed

lemma eq_returns: "\<exists>r. eq (fuel h) h a b s = Some (r, s)"
  using returns_all(1) [of h s "fuel h" a b] unguarded_le [of h s] by (simp add: fuel_def less_Suc_eq_le)

lemma eq_fuel_indep:
  assumes "unguarded h s < n"
  shows "eq n h a b s = eq (fuel h) h a b s"
proof -
  from assms returns_all(1) obtain r where r: "eq n h a b s = Some (r, s)" by blast
  obtain r' where r': "eq (fuel h) h a b s = Some (r', s)" using eq_returns by blast
  show ?thesis
  proof (cases "n \<le> fuel h")
    case True
    then obtain k where "fuel h = n + k" using le_Suc_ex by blast
    with fuel_mono_all(1) [of n h a b s k] r show ?thesis by simp
  next
    case False
    then obtain k where "n = fuel h + k" using le_Suc_ex [of "fuel h" n] by auto
    with fuel_mono_all(1) [of "fuel h" h a b s k] r' show ?thesis by simp
  qed
qed

section \<open>The calls in terms of their outcomes\<close>

lemma eq_outcome: "unguarded h s < n \<Longrightarrow> eq n h a b s = Some (outcome h a b s, s)"
  using eq_returns [of h a b s] eq_fuel_indep [of h s n a b] by (auto simp: outcome_def)

lemma arrayEq_loop_outcome:
  "unguarded h s < n \<Longrightarrow>
   arrayEq_loop n h a b is r s =
     Some (loop_outcome r (map (\<lambda>i. outcome h (index h a i) (index h b i) s) is), s)"
proof (induction "is")
  case Nil
  then show ?case by simp
next
  case (Cons i "is")
  then show ?case by (cases "outcome h (index h a i) (index h b i) s") (simp_all add: eq_outcome)
qed

lemma objectEq_loop_outcome:
  "unguarded h s < n \<Longrightarrow>
   objectEq_loop n h a b ks r s = Some (loop_outcome r (map (key_outcome h a b s) ks), s)"
proof (induction ks)
  case Nil
  then show ?case by simp
next
  case (Cons key ks)
  then show ?case
    by (cases "hasOwnProperty h b key"; cases "outcome h (get_prop h a key) (get_prop h b key) s")
       (simp_all add: eq_outcome key_outcome_def)
qed

lemma arrayEq_outcome:
  assumes "unguarded h s \<le> n"
  shows "arrayEq n h a b s = Some (array_outcome h a b s, s)"
proof (cases "\<not> isArray h a \<or> \<not> isArray h b \<or> length (elements h a) \<noteq> length (elements h b)")
  case True
  then show ?thesis by (auto simp: arrayEq.simps array_outcome_def)
next
  case False
  show ?thesis
  proof (cases "seen a b s")
    case True
    with False show ?thesis by (simp add: arrayEq.simps array_outcome_def detectRecursion_seen)
  next
    case ns: False
    from False obtain x y where xy: "a = VRef x" "x < length h" "b = VRef y" "y < length h"
      using isArray_ref by blast
    with ns assms have lt: "unguarded h (mark a b s) < n"
      using unguarded_mark [of x h y s] by simp
    have "detectRecursion a b (arrayEq_loop n h a b [0..<length (elements h a)]) True s =
            Some (case loop_outcome True (map (\<lambda>i. outcome h (index h a i) (index h b i) (mark a b s)) [0..<length (elements h a)]) of
                    Inl e \<Rightarrow> Inl e | Inr r' \<Rightarrow> Inr (False, r'), s)"
      using ns xy arrayEq_loop_outcome [OF lt] by (intro detectRecursion_run) auto
    with False ns show ?thesis
      by (simp add: arrayEq.simps array_outcome_def split: sum.splits)
  qed
qed

lemma objectEq_outcome:
  assumes "unguarded h s \<le> n" and ta: "type h a = Inr TObject" and tb: "type h b = Inr TObject"
  shows "objectEq n h a b s = Some (object_outcome h a b s, s)"
proof (cases "\<exists>ak bk. Object_keys h a = Inr ak \<and> Object_keys h b = Inr bk \<and> length ak = length bk")
  case False
  then show ?thesis by (auto simp: objectEq.simps object_outcome_def split: sum.splits)
next
  case True
  then obtain ak bk where k: "Object_keys h a = Inr ak" "Object_keys h b = Inr bk" "length ak = length bk"
    by blast
  show ?thesis
  proof (cases "seen a b s")
    case True
    with k show ?thesis by (simp add: objectEq.simps object_outcome_def detectRecursion_seen)
  next
    case ns: False
    from ta tb obtain x y where xy: "a = VRef x" "x < length h" "b = VRef y" "y < length h"
      using type_Object_ref by blast
    with ns assms have lt: "unguarded h (mark a b s) < n"
      using unguarded_mark [of x h y s] by simp
    have "detectRecursion a b (objectEq_loop n h a b ak) True s =
            Some (case loop_outcome True (map (key_outcome h a b (mark a b s)) ak) of
                    Inl e \<Rightarrow> Inl e | Inr r' \<Rightarrow> Inr (False, r'), s)"
      using ns xy objectEq_loop_outcome [OF lt] by (intro detectRecursion_run) auto
    with k ns show ?thesis
      by (simp add: objectEq.simps object_outcome_def split: sum.splits)
  qed
qed

lemma outcome_unfold:
  "outcome h a b s =
     (if strict_eq a b then Inr (VBool True)
      else if delegate h a then call h (get_prop h a ''eq'') a b
      else
        (case type h a of
           Inl e \<Rightarrow> Inl e
         | Inr atype \<Rightarrow>
             (case type h b of
                Inl e \<Rightarrow> Inl e
              | Inr btype \<Rightarrow>
                  if atype \<noteq> btype then Inr (VBool False)
                  else
                    (case atype of
                       TBoolean \<Rightarrow> Inr (VBool (strict_eq (valueOf h a) (valueOf h b)))
                     | TString \<Rightarrow> Inr (VBool (strict_eq (valueOf h a) (valueOf h b)))
                     | TDate \<Rightarrow> Inr (VBool (strict_eq (valueOf h a) (valueOf h b)))
                     | TNumber \<Rightarrow> Inr (VBool (strict_eq (valueOf h a) (valueOf h b)))
                     | TRegexp \<Rightarrow>
                         (case (regexp_of h a, regexp_of h b) of
                            (Some ra, Some rb) \<Rightarrow>
                              Inr (VBool (source ra = source rb \<and> global ra = global rb \<and>
                                          multiline ra = multiline rb \<and> ignoreCase ra = ignoreCase rb))
                          | _ \<Rightarrow> Inr (VBool False))
                     | TArray \<Rightarrow> array_outcome h a b s
                     | TObject \<Rightarrow> object_outcome h a b s
                     | _ \<Rightarrow> Inr (VBool False)))))"
proof -
  have le: "unguarded h s \<le> length h * length h" by (rule unguarded_le)
  show ?thesis
    unfolding outcome_def fuel_def eq.simps(2) delegate_def
    by (simp add: arrayEq_outcome [OF le] objectEq_outcome [OF le]
          split: sum.splits tag.splits option.splits)
qed

section \<open>Values on which nothing delegates or throws\<close>

lemma type_Object:
  "type h a = Inr TObject \<Longrightarrow> \<exists>x ob. a = VRef x \<and> x < length h \<and> h ! x = ob \<and> kind ob = Object"
  by (auto simp: type_def toString_call_def lookup_def
        split: if_splits val.splits option.splits kind.splits class_name.splits sum.splits)

lemma type_Array:
  "type h a = Inr TArray \<Longrightarrow> isArray h a"
  by (auto simp: type_def toString_call_def lookup_def isArray_def
        split: if_splits val.splits option.splits kind.splits class_name.splits sum.splits)








section \<open>Arrays\<close>


lemma isArray_type: "isArray h a \<Longrightarrow> type h a = Inr TArray"
  by (auto simp: isArray_def type_def toString_call_def
        split: val.splits option.splits kind.splits)

lemma outcome_arrays:
  assumes "isArray h a" "isArray h b" "a \<noteq> b" "\<not> delegate h a"
  shows "outcome h a b s = array_outcome h a b s"
  using assms by (subst outcome_unfold) (simp add: isArray_type strict_eq_def)

lemma loop_outcome_True:
  "loop_outcome True xs = Inr True \<longleftrightarrow> (\<forall>x\<in>set xs. \<exists>v. x = Inr v \<and> truthy v)"
proof (induction xs)
  case Nil
  then show ?case by simp
next
  case (Cons x xs)
  then show ?case by (cases x) auto
qed

lemma eq_fuel_outcome: "eq (fuel h) h a b s = Some (outcome h a b s, s)"
  using eq_outcome [of h s "fuel h" a b] unguarded_le [of h s] by (simp add: fuel_def)

section \<open>Symmetry where nothing delegates or throws\<close>







section \<open>The named properties of an array are not read\<close>

lemma array_props_frame:
  assumes x: "x < length h" and k: "kind (h ! x) = Array xs"
    and d: "\<not> delegate h (VRef x)" and d': "\<not> delegate (h[x := (h ! x)\<lparr>props := ps\<rparr>]) (VRef x)"
  shows "outcome (h[x := (h ! x)\<lparr>props := ps\<rparr>]) a b s = outcome h a b s"
proof -
  define h' where "h' = h[x := (h ! x)\<lparr>props := ps\<rparr>]"
  have len: "length h' = length h" by (simp add: h'_def)
  have lk: "lookup h' y = (if y = x then Some ((h ! x)\<lparr>props := ps\<rparr>) else lookup h y)" for y
    using x by (simp add: h'_def lookup_def)
  have lx: "lookup h x = Some (h ! x)" using x by (simp add: lookup_def)
  have ts: "toString_call h' v = toString_call h v" for v
    using k lx by (cases v) (simp_all add: toString_call_def lk)
  have ia: "isArray h' v = isArray h v" for v
    using k lx by (cases v) (simp_all add: isArray_def lk)
  have el: "elements h' v = elements h v" for v
    using k lx by (cases v) (simp_all add: elements_def lk)
  have ix: "index h' v i = index h v i" for v i
    by (simp add: index_def el)
  have vo: "valueOf h' v = valueOf h v" for v
    using k lx by (cases v) (simp_all add: valueOf_def lk)
  have re: "regexp_of h' v = regexp_of h v" for v
    using k lx by (cases v) (simp_all add: regexp_of_def lk)
  have isf: "is_function h' v = is_function h v" for v
    using k lx by (cases v) (simp_all add: is_function_def lk)
  have "call h' f this arg = call h f this arg" for f this arg
    using k lx by (cases f) (simp_all add: call_def lk)
  then have cl: "call h' = call h" by (intro ext)
  have gp: "get_prop h' v key = get_prop h v key" if "v \<noteq> VRef x" for v key
    using that by (cases v) (simp_all add: get_prop_def lk)
  have ho: "hasOwnProperty h' v key = hasOwnProperty h v key" if "v \<noteq> VRef x" for v key
    using that by (cases v) (simp_all add: hasOwnProperty_def lk cl cong: option.case_cong)
  have ok: "Object_keys h' v = Object_keys h v" if "v \<noteq> VRef x" for v
    using that by (cases v) (simp_all add: Object_keys_def lk)
  have nco: "toString_call h (VRef x) \<noteq> CObject"
    using k lx by (simp add: toString_call_def)
  have ty: "type h' v = type h v" for v
  proof (cases "v = VRef x")
    case True
    with nco ts [of v] show ?thesis
      by (cases "toString_call h (VRef x)") (simp_all add: type_def)
  next
    case False
    then show ?thesis by (simp add: type_def ts ho cong: class_name.case_cong)
  qed
  have de: "delegate h' v = delegate h v" for v
  proof (cases "v = VRef x")
    case True
    with d d' show ?thesis by (simp add: h'_def)
  next
    case False
    then show ?thesis by (simp add: delegate_def gp isf)
  qed
  have notx: "v \<noteq> VRef x" if "type h v = Inr TObject" for v
    using type_Object [OF that] k by auto
  have "outcome h' a b s = outcome h a b s"
  proof (induction "unguarded h s" arbitrary: s a b rule: less_induct)
    case less
    have arr: "array_outcome h' a b s = array_outcome h a b s"
    proof (cases "isArray h a \<and> isArray h b \<and> length (elements h a) = length (elements h b) \<and> \<not> seen a b s")
      case False
      then show ?thesis by (auto simp: array_outcome_def ia el)
    next
      case True
      then obtain u v where uv: "a = VRef u" "u < length h" "b = VRef v" "v < length h"
        using isArray_ref by blast
      with True have lt: "unguarded h (mark a b s) < unguarded h s"
        using unguarded_mark [of u h v s] by simp
      have "outcome h' (index h a i) (index h b i) (mark a b s) =
            outcome h (index h a i) (index h b i) (mark a b s)" for i
        using less [OF lt] .
      with True show ?thesis by (simp add: array_outcome_def ia el ix)
    qed
    have obj: "object_outcome h' a b s = object_outcome h a b s"
      if tao: "type h a = Inr TObject" and tbo: "type h b = Inr TObject"
    proof -
      have na: "a \<noteq> VRef x" and nb: "b \<noteq> VRef x" using notx tao tbo by blast+
      show ?thesis
      proof (cases "\<exists>ak bk. Object_keys h a = Inr ak \<and> Object_keys h b = Inr bk \<and> length ak = length bk \<and> \<not> seen a b s")
        case False
        then show ?thesis by (auto simp: object_outcome_def ok [OF na] ok [OF nb] split: sum.splits)
      next
        case True
        then obtain ak bk where kk: "Object_keys h a = Inr ak" "Object_keys h b = Inr bk"
            "length ak = length bk" "\<not> seen a b s"
          by blast
        from tao tbo obtain u v where uv: "a = VRef u" "u < length h" "b = VRef v" "v < length h"
          using type_Object_ref by blast
        with kk have lt: "unguarded h (mark a b s) < unguarded h s"
          using unguarded_mark [of u h v s] by simp
        have "key_outcome h' a b (mark a b s) key = key_outcome h a b (mark a b s) key" for key
          using less [OF lt] by (simp add: key_outcome_def ho [OF nb] gp [OF na] gp [OF nb] split: sum.splits)
        then have "key_outcome h' a b (mark a b s) = key_outcome h a b (mark a b s)"
          by (intro ext)
        with kk show ?thesis by (simp add: object_outcome_def ok [OF na] ok [OF nb])
      qed
    qed
    have gpe: "call h' (get_prop h' a ''eq'') a b = call h (get_prop h a ''eq'') a b" if "delegate h a"
    proof -
      from that d have "a \<noteq> VRef x" by auto
      then show ?thesis by (simp add: gp cl)
    qed
    show ?case
      using arr obj gpe
      by (subst outcome_unfold, subst outcome_unfold)
         (auto simp: de ty vo re split: sum.splits tag.splits)
  qed
  then show ?thesis by (simp add: h'_def)
qed

section \<open>The depth a comparison needs grows with the nesting of the values\<close>

lemma seen_mem: "strict_eq a a \<Longrightarrow> strict_eq b b \<Longrightarrow> seen a b s = ((a, b) \<in> set s)"
  by (induction s) (auto simp: strict_eq_def)





section \<open>The claims\<close>

lemmas builtins =
  lookup_def strict_eq_def get_prop_def is_function_def call_def has_own_def hasOwnProperty_def
  toString_call_def isArray_def elements_def index_def valueOf_def regexp_of_def Object_keys_def
  mark_def detectRecursion_def type_def delegate_def std_def fuel_def
  reads_def closed_def plain_def self_arrays_def bare_def bare_in_arrays_def
  diverging_arrays_def two_bare_def plain_and_sticky_def
  two_arguments_def
  enumerable_own_def model_in_array_def key_orders_def
  plain_arrays_def yes_model_def delegating_dates_def

lemmas unfold_eq = eq.simps(2) arrayEq.simps objectEq.simps








text \<open>
  C4. \<^verbatim>\<open>type\<close> and \<^verbatim>\<open>eq\<close> throw on an object that has no prototype: its class is
  \<^verbatim>\<open>[object Object]\<close>, so \<^verbatim>\<open>type\<close> calls \<^verbatim>\<open>o.hasOwnProperty('callee')\<close>, and the object has no
  such method. The same happens when an own property shadows the method, as in
  \<^verbatim>\<open>{hasOwnProperty: 1}\<close>.
\<close>

theorem type_throws_without_prototype:
  "type two_bare (VRef 0) = Inl TypeError \<and>
   eq (fuel two_bare) two_bare (VRef 0) (VRef 1) [] = Some (Inl TypeError, []) \<and>
   type [std Object [(''hasOwnProperty'', VNum (Finite 1))]] (VRef 0) = Inl TypeError"
  by (simp add: builtins unfold_eq eval_nat_numeral)

text \<open>
  C5, as the code has it. For two distinct arrays, the first of which does not make \<^verbatim>\<open>eq\<close>
  delegate, \<^verbatim>\<open>eq\<close> returns \<^verbatim>\<open>true\<close> exactly when they have the same length and either the
  pair is in the guard or at every index the comparison of the two elements, made with
  the pair added to the guard, returns a truthy value. An array equals itself by the
  identity test. The named properties of an array are not read: replacing them by any
  others changes no result of \<^verbatim>\<open>eq\<close>, as long as they do not make \<^verbatim>\<open>eq\<close> delegate to the
  array. Two distinct \<^verbatim>\<open>arguments\<close> objects, the first of which does not make \<^verbatim>\<open>eq\<close>
  delegate, are never equal: the \<^verbatim>\<open>switch\<close> of \<^verbatim>\<open>eq\<close> has no case for their tag and
  returns \<^verbatim>\<open>false\<close>.
\<close>

theorem array_rule:
  "(isArray h a \<and> isArray h b \<and> a \<noteq> b \<and> \<not> delegate h a \<longrightarrow>
      (eq (fuel h) h a b s = Some (Inr (VBool True), s) \<longleftrightarrow>
         length (elements h a) = length (elements h b) \<and>
         (seen a b s \<or>
          (\<forall>i<length (elements h a).
             \<exists>v. eq (fuel h) h (index h a i) (index h b i) (s @ [(a, b)]) = Some (Inr v, s @ [(a, b)]) \<and>
                 truthy v)))) \<and>
   (isArray h a \<longrightarrow> eq (Suc n) h a a s = Some (Inr (VBool True), s)) \<and>
   (x < length h \<and> kind (h ! x) = Array xs \<and> \<not> delegate h (VRef x) \<and>
    \<not> delegate (h[x := (h ! x)\<lparr>props := ps\<rparr>]) (VRef x) \<longrightarrow>
      eq (fuel h) (h[x := (h ! x)\<lparr>props := ps\<rparr>]) a b s = eq (fuel h) h a b s) \<and>
   (type h a = Inr TArguments \<and> type h b = Inr TArguments \<and> a \<noteq> b \<and> \<not> delegate h a \<longrightarrow>
      eq (Suc n) h a b s = Some (Inr (VBool False), s))"
proof -
  have 1: "eq (fuel h) h a b s = Some (Inr (VBool True), s) \<longleftrightarrow>
         length (elements h a) = length (elements h b) \<and>
         (seen a b s \<or>
          (\<forall>i<length (elements h a).
             \<exists>v. eq (fuel h) h (index h a i) (index h b i) (s @ [(a, b)]) = Some (Inr v, s @ [(a, b)]) \<and>
                 truthy v))"
    if p: "isArray h a" "isArray h b" "a \<noteq> b" "\<not> delegate h a"
  proof -
    let ?xs = "map (\<lambda>i. outcome h (index h a i) (index h b i) (mark a b s)) [0..<length (elements h a)]"
    have "(\<forall>x\<in>set ?xs. \<exists>v. x = Inr v \<and> truthy v) \<longleftrightarrow>
          (\<forall>i<length (elements h a).
             \<exists>v. eq (fuel h) h (index h a i) (index h b i) (s @ [(a, b)]) = Some (Inr v, s @ [(a, b)]) \<and>
                 truthy v)"
      by (auto simp: eq_fuel_outcome mark_def)
    then have "array_outcome h a b s = Inr (VBool True) \<longleftrightarrow>
         length (elements h a) = length (elements h b) \<and>
         (seen a b s \<or>
          (\<forall>i<length (elements h a).
             \<exists>v. eq (fuel h) h (index h a i) (index h b i) (s @ [(a, b)]) = Some (Inr v, s @ [(a, b)]) \<and>
                 truthy v))"
      using p loop_outcome_True [of ?xs]
      by (cases "loop_outcome True ?xs") (auto simp: array_outcome_def)
    with p show ?thesis by (simp add: eq_fuel_outcome outcome_arrays)
  qed
  have 2: "eq (Suc n) h a a s = Some (Inr (VBool True), s)" if "isArray h a"
    using isArray_ref [OF that] by (auto simp: eq.simps(2))
  have 3: "eq (fuel h) (h[x := (h ! x)\<lparr>props := ps\<rparr>]) a b s = eq (fuel h) h a b s"
    if "x < length h" "kind (h ! x) = Array xs" "\<not> delegate h (VRef x)"
      "\<not> delegate (h[x := (h ! x)\<lparr>props := ps\<rparr>]) (VRef x)"
  proof -
    have "fuel (h[x := (h ! x)\<lparr>props := ps\<rparr>]) = fuel h" by (simp add: fuel_def)
    with eq_fuel_outcome [of "h[x := (h ! x)\<lparr>props := ps\<rparr>]" a b s] array_props_frame [OF that, of a b s]
    show ?thesis by (simp add: eq_fuel_outcome)
  qed
  have 4: "eq (Suc n) h a b s = Some (Inr (VBool False), s)"
    if "type h a = Inr TArguments" "type h b = Inr TArguments" "a \<noteq> b" "\<not> delegate h a"
    using that by (auto simp: eq.simps(2) strict_eq_def delegate_def)
  from 1 2 3 4 show ?thesis by blast
qed

text \<open>
  The two self-referential arrays are equal, so at both indices the elements compare
  truthy with the pair in the guard; \<^verbatim>\<open>[1, 2, 3]\<close> with the property \<^verbatim>\<open>foo\<close> added equals
  \<^verbatim>\<open>[1, 2, 3]\<close>, as without it; and the two \<^verbatim>\<open>arguments\<close> objects are unequal.
\<close>

theorem array_rule_witness:
  "isArray self_arrays (VRef 0) \<and> isArray self_arrays (VRef 1) \<and> (VRef 0 :: val) \<noteq> VRef 1 \<and>
   \<not> delegate self_arrays (VRef 0) \<and>
   eq (fuel self_arrays) self_arrays (VRef 0) (VRef 1) [] = Some (Inr (VBool True), []) \<and>
   length (elements self_arrays (VRef 0)) = length (elements self_arrays (VRef 1)) \<and>
   (seen (VRef 0) (VRef 1) [] \<or>
    (\<forall>i<length (elements self_arrays (VRef 0)).
       \<exists>v. eq (fuel self_arrays) self_arrays (index self_arrays (VRef 0) i) (index self_arrays (VRef 1) i)
              ([] @ [(VRef 0, VRef 1)]) = Some (Inr v, [] @ [(VRef 0, VRef 1)]) \<and> truthy v)) \<and>
   0 < length plain_arrays \<and>
   kind (plain_arrays ! 0) = Array [VNum (Finite 1), VNum (Finite 2), VNum (Finite 3)] \<and>
   \<not> delegate plain_arrays (VRef 0) \<and>
   \<not> delegate (plain_arrays[0 := (plain_arrays ! 0)\<lparr>props := [(''foo'', VStr ''bar'')]\<rparr>]) (VRef 0) \<and>
   eq (fuel plain_arrays) (plain_arrays[0 := (plain_arrays ! 0)\<lparr>props := [(''foo'', VStr ''bar'')]\<rparr>])
     (VRef 0) (VRef 1) [] = Some (Inr (VBool True), []) \<and>
   type two_arguments (VRef 0) = Inr TArguments \<and> type two_arguments (VRef 1) = Inr TArguments \<and>
   \<not> delegate two_arguments (VRef 0) \<and>
   eq (Suc 0) two_arguments (VRef 0) (VRef 1) [] = Some (Inr (VBool False), [])"
proof -
  have p: "isArray self_arrays (VRef 0) \<and> isArray self_arrays (VRef 1) \<and> (VRef 0 :: val) \<noteq> VRef 1 \<and>
     \<not> delegate self_arrays (VRef 0)"
    by (simp add: builtins)
  have e: "eq (fuel self_arrays) self_arrays (VRef 0) (VRef 1) [] = Some (Inr (VBool True), [])"
    by (simp add: builtins unfold_eq eval_nat_numeral)
  note r = array_rule [where h = self_arrays and a = "VRef 0" and b = "VRef 1" and s = "[]",
      THEN conjunct1, THEN mp, OF p, THEN iffD1, OF e]
  have f: "0 < length plain_arrays \<and>
     kind (plain_arrays ! 0) = Array [VNum (Finite 1), VNum (Finite 2), VNum (Finite 3)] \<and>
     \<not> delegate plain_arrays (VRef 0) \<and>
     \<not> delegate (plain_arrays[0 := (plain_arrays ! 0)\<lparr>props := [(''foo'', VStr ''bar'')]\<rparr>]) (VRef 0)"
    by (simp add: builtins)
  have "eq (fuel plain_arrays) (plain_arrays[0 := (plain_arrays ! 0)\<lparr>props := [(''foo'', VStr ''bar'')]\<rparr>])
          (VRef 0) (VRef 1) [] = eq (fuel plain_arrays) plain_arrays (VRef 0) (VRef 1) []"
    by (rule array_rule [where h = plain_arrays and x = 0 and a = "VRef 0" and b = "VRef 1" and s = "[]",
          THEN conjunct2, THEN conjunct2, THEN conjunct1, THEN mp, OF f])
  also have "\<dots> = Some (Inr (VBool True), [])"
    by (simp add: builtins unfold_eq eval_nat_numeral)
  finally have g: "eq (fuel plain_arrays)
      (plain_arrays[0 := (plain_arrays ! 0)\<lparr>props := [(''foo'', VStr ''bar'')]\<rparr>])
      (VRef 0) (VRef 1) [] = Some (Inr (VBool True), [])" .
  have q: "type two_arguments (VRef 0) = Inr TArguments \<and> type two_arguments (VRef 1) = Inr TArguments \<and>
     (VRef 0 :: val) \<noteq> VRef 1 \<and> \<not> delegate two_arguments (VRef 0)"
    by (simp add: builtins)
  note t = array_rule [where h = two_arguments and a = "VRef 0" and b = "VRef 1" and n = 0 and s = "[]",
      THEN conjunct2, THEN conjunct2, THEN conjunct2, THEN mp, OF q]
  from p e r f g q t show ?thesis by blast
qed

text \<open>
  C5 as stated fails on \<^verbatim>\<open>arguments\<close> objects: the two have the tag \<^verbatim>\<open>arguments\<close>, the same
  length and equal elements, neither makes \<^verbatim>\<open>eq\<close> delegate, and \<^verbatim>\<open>eq\<close> returns \<^verbatim>\<open>false\<close>.
\<close>

theorem arguments_not_compared:
  "type two_arguments (VRef 0) = Inr TArguments \<and> type two_arguments (VRef 1) = Inr TArguments \<and>
   length (elements two_arguments (VRef 0)) = length (elements two_arguments (VRef 1)) \<and>
   length (elements two_arguments (VRef 0)) = 1 \<and>
   eq (fuel two_arguments) two_arguments (index two_arguments (VRef 0) 0) (index two_arguments (VRef 1) 0) [] =
     Some (Inr (VBool True), []) \<and>
   eq (fuel two_arguments) two_arguments (VRef 0) (VRef 1) [] = Some (Inr (VBool False), [])"
  by (simp add: builtins unfold_eq eval_nat_numeral)

text \<open>
  C6. \<^verbatim>\<open>eq(/a/, /a/y)\<close> is \<^verbatim>\<open>true\<close>: the \<^verbatim>\<open>regexp\<close> case compares \<^verbatim>\<open>source\<close>, \<^verbatim>\<open>global\<close>,
  \<^verbatim>\<open>multiline\<close> and \<^verbatim>\<open>ignoreCase\<close> and no other flag.
\<close>

theorem sticky_flag_not_compared:
  "type plain_and_sticky (VRef 0) = Inr TRegexp \<and> type plain_and_sticky (VRef 1) = Inr TRegexp \<and>
   map_option sticky (regexp_of plain_and_sticky (VRef 0)) = Some False \<and>
   map_option sticky (regexp_of plain_and_sticky (VRef 1)) = Some True \<and>
   eq (fuel plain_and_sticky) plain_and_sticky (VRef 0) (VRef 1) [] = Some (Inr (VBool True), [])"
  by (simp add: builtins unfold_eq eval_nat_numeral)




text \<open>
  C8. The not-a-number sentinel has a tag of its own, \<open>TNaN\<close>, different from \<open>TNumber\<close>,
  which every other number gets: \<^verbatim>\<open>o !== o\<close> is tested before the class of the value is
  looked at. So \<^verbatim>\<open>eq(NaN, NaN)\<close> is false, \<^verbatim>\<open>eq(NaN, m)\<close> and \<^verbatim>\<open>eq(m, NaN)\<close> are false for
  every number \<open>m\<close>, and \<^verbatim>\<open>eq(NaN, x)\<close> is false for every \<open>x\<close> that \<^verbatim>\<open>type\<close> classifies
  (a \<^verbatim>\<open>Number\<close> wrapper included), with any guard and any depth of at least one.
\<close>

theorem nan_own_tag_never_equal:
  "type h (VNum NaN) = Inr TNaN \<and> TNaN \<noteq> TNumber \<and>
   type h (VNum (Finite q)) = Inr TNumber \<and>
   type h (VNum PosInfinity) = Inr TNumber \<and> type h (VNum NegInfinity) = Inr TNumber \<and>
   eq (Suc n) h (VNum NaN) (VNum NaN) s = Some (Inr (VBool False), s) \<and>
   eq (Suc n) h (VNum NaN) (VNum m) s = Some (Inr (VBool False), s) \<and>
   eq (Suc n) h (VNum m) (VNum NaN) s = Some (Inr (VBool False), s) \<and>
   eq (Suc n) h (VNum NaN) x s =
     (case type h x of Inl e \<Rightarrow> Some (Inl e, s) | Inr t \<Rightarrow> Some (Inr (VBool False), s))"
proof -
  have t: "type h (VNum NaN) = Inr TNaN"
    by (simp add: type_def strict_eq_def)
  have tm: "type h (VNum m) = Inr (if m = NaN then TNaN else TNumber)" for m
    by (simp add: type_def strict_eq_def toString_call_def)
  have pd: "get_prop h (VNum m) k = VUndefined" for m k
    by (simp add: get_prop_def)
  have "eq (Suc n) h (VNum NaN) x s =
     (case type h x of Inl e \<Rightarrow> Some (Inl e, s) | Inr t \<Rightarrow> Some (Inr (VBool False), s))" for x
    by (simp add: eq.simps(2) t strict_eq_def split: sum.splits tag.splits)
  moreover have "eq (Suc n) h (VNum m) (VNum NaN) s = Some (Inr (VBool False), s)"
    by (simp add: eq.simps(2) t tm pd strict_eq_def)
  moreover have "eq (Suc n) h (VNum NaN) (VNum m) s = Some (Inr (VBool False), s)"
    by (simp add: eq.simps(2) t tm pd strict_eq_def)
  ultimately show ?thesis using t tm [of "Finite q"] tm [of PosInfinity] tm [of NegInfinity]
    by simp
qed

text \<open>
  C9. \<^verbatim>\<open>arrayEq(a, b)\<close> returns \<^verbatim>\<open>false\<close>, leaving the guard as it was, as soon as one of its
  arguments is not an array, whatever the two values are (identical ones included); so
  when it returns \<^verbatim>\<open>true\<close> both arguments are arrays.
\<close>

theorem arrayEq_needs_arrays:
  "(\<not> isArray h a \<or> \<not> isArray h b \<longrightarrow> arrayEq n h a b s = Some (Inr (VBool False), s)) \<and>
   (arrayEq n h a b s = Some (Inr (VBool True), s') \<longrightarrow> isArray h a \<and> isArray h b)"
  by (auto simp: arrayEq.simps)

text \<open>
  The same plain object \<^verbatim>\<open>{}\<close> passed twice: \<^verbatim>\<open>arrayEq\<close> says \<^verbatim>\<open>false\<close> where \<^verbatim>\<open>eq\<close> says
  \<^verbatim>\<open>true\<close>.
\<close>

theorem arrayEq_needs_arrays_witness:
  "\<not> isArray [std Object []] (VRef 0) \<and>
   arrayEq 1 [std Object []] (VRef 0) (VRef 0) [] = Some (Inr (VBool False), []) \<and>
   eq 1 [std Object []] (VRef 0) (VRef 0) [] = Some (Inr (VBool True), [])"
proof -
  have na: "\<not> isArray [std Object []] (VRef 0)"
    by (simp add: isArray_def lookup_def std_def)
  then have "\<not> isArray [std Object []] (VRef 0) \<or> \<not> isArray [std Object []] (VRef 0)" by simp
  then have "arrayEq 1 [std Object []] (VRef 0) (VRef 0) [] = Some (Inr (VBool False), [])"
    by (rule arrayEq_needs_arrays [THEN conjunct1, THEN mp])
  moreover have "eq 1 [std Object []] (VRef 0) (VRef 0) [] = Some (Inr (VBool True), [])"
    by (simp add: eq.simps(2))
  ultimately show ?thesis using na by simp
qed




end
